theory Spec2Isabelle
  imports Main
begin

section \<open>The simplelru cache: data model\<close>

text \<open>
  The cache of \<^verbatim>\<open>simplelru/simple_lru.go\<close> is a \<^verbatim>\<open>container/list\<close> of
  elements, each holding a pointer to an \<^verbatim>\<open>entry\<close>, and a Go map from keys to
  element pointers. The model keeps the two apart, as the code does:
  \<^item> an element pointer is an address (a \<^typ>\<open>nat\<close>); a pointer that may be nil is an
    \<^typ>\<open>nat option\<close>;
  \<^item> the heap is the list of all entries ever allocated, the entry of the element at
    address \<open>a\<close> being \<open>heap ! a\<close>; nothing is ever freed (Go is garbage collected, and
    the code reads an element after it has been unlinked);
  \<^item> the linked list is the sequence of the addresses of its elements, front first, so
    the back (oldest) element is the last one;
  \<^item> \<^verbatim>\<open>time.Now()\<close> is an input: an instant is an \<^typ>\<open>int\<close> (nanoseconds), an
    operation that reads the clock once takes the reading, and an operation that reads
    it in a loop takes the sequence of readings \<open>clk\<close>, \<open>clk 0\<close> being the first;
  \<^item> the callback \<^verbatim>\<open>onEvict\<close> is a flag (is one installed?) and the log of the
    calls made to it, oldest first. The callback is assumed to return and not to call
    back into the cache;
  \<^item> keys are values of a type with equality (a Go map panics on an unhashable key;
    such keys are outside the model).
\<close>

type_synonym addr = nat
type_synonym instant = int
type_synonym duration = int

record ('k, 'v) entry =
  e_key :: 'k
  e_value :: 'v
  e_expire :: "instant option"

record ('k, 'v) LRU =
  c_size :: int
  evictList :: "addr list"
  items :: "'k \<rightharpoonup> addr"
  c_expire :: duration
  onEvict :: bool
  heap :: "('k, 'v) entry list"
  calls :: "('k \<times> 'v) list"

text \<open>
  \<open>PositiveSizeRequired\<close> is the error value of the constructor,
  \<open>NilPointerDereference\<close> the run-time panic of Go on a nil pointer.
  \<open>InvalidAddress\<close> is the model's own: reading the heap at an address that was never
  allocated, which no Go pointer is.
\<close>

datatype error = PositiveSizeRequired | NilPointerDereference | InvalidAddress

definition deref :: "('k, 'v) entry list \<Rightarrow> addr \<Rightarrow> ('k, 'v) entry option" where
  "deref h a = (if a < length h then Some (h ! a) else None)"

subsection \<open>The operations of container/list that the cache uses\<close>

definition list_Back :: "addr list \<Rightarrow> addr option" where
  "list_Back l = (if l = [] then None else Some (last l))"

text \<open>\<^verbatim>\<open>e.Next()\<close>: the element after \<open>e\<close> towards the back, nil after the back.\<close>

definition list_Next :: "addr list \<Rightarrow> addr \<Rightarrow> addr option" where
  "list_Next l a =
     (case dropWhile (\<lambda>x. x \<noteq> a) l of
        [] \<Rightarrow> None
      | _ # [] \<Rightarrow> None
      | _ # b # _ \<Rightarrow> Some b)"

definition list_PushFront :: "addr list \<Rightarrow> addr \<Rightarrow> addr list" where
  "list_PushFront l a = a # l"

text \<open>Both do nothing on an element that is not in the list.\<close>

definition list_MoveToFront :: "addr list \<Rightarrow> addr \<Rightarrow> addr list" where
  "list_MoveToFront l a = (if a \<in> set l then a # remove1 a l else l)"

definition list_Remove :: "addr list \<Rightarrow> addr \<Rightarrow> addr list" where
  "list_Remove l a = remove1 a l"

section \<open>The operations of the cache\<close>

definition NewLRUWithExpire :: "int \<Rightarrow> duration \<Rightarrow> bool \<Rightarrow> error + ('k, 'v) LRU" where
  "NewLRUWithExpire sz expire cb =
     (if sz \<le> 0 then Inl PositiveSizeRequired
      else Inr \<lparr>c_size = sz, evictList = [], items = Map.empty, c_expire = expire,
                onEvict = cb, heap = [], calls = []\<rparr>)"

definition NewLRU :: "int \<Rightarrow> bool \<Rightarrow> error + ('k, 'v) LRU" where
  "NewLRU sz cb = NewLRUWithExpire sz 0 cb"

definition IsExpired :: "('k, 'v) entry \<Rightarrow> instant \<Rightarrow> bool" where
  "IsExpired e now = (case e_expire e of None \<Rightarrow> False | Some t \<Rightarrow> now > t)"

definition Len :: "('k, 'v) LRU \<Rightarrow> int" where
  "Len c = int (length (evictList c))"

text \<open>
  \<^verbatim>\<open>removeElement\<close> starts with \<^verbatim>\<open>c.evictList.Remove(e)\<close>, which reads
  \<^verbatim>\<open>e.list\<close>: on a nil element it panics.
\<close>

definition removeElement :: "('k, 'v) LRU \<Rightarrow> addr option \<Rightarrow> error + ('k, 'v) LRU" where
  "removeElement c e =
     (case e of
        None \<Rightarrow> Inl NilPointerDereference
      | Some a \<Rightarrow>
          (case deref (heap c) a of
             None \<Rightarrow> Inl InvalidAddress
           | Some kv \<Rightarrow>
               Inr (c\<lparr>evictList := list_Remove (evictList c) a,
                      items := (items c)(e_key kv := None),
                      calls := (if onEvict c then calls c @ [(e_key kv, e_value kv)]
                                else calls c)\<rparr>)))"

definition removeOldest :: "('k, 'v) LRU \<Rightarrow> error + ('k, 'v) LRU" where
  "removeOldest c =
     (case list_Back (evictList c) of
        None \<Rightarrow> Inr c
      | Some ent \<Rightarrow> removeElement c (Some ent))"

text \<open>The expiration that \<^verbatim>\<open>AddEx\<close> computes before it looks the key up.\<close>

definition expiration :: "('k, 'v) LRU \<Rightarrow> duration \<Rightarrow> instant \<Rightarrow> instant option" where
  "expiration c expire now =
     (if expire > 0 then Some (now + expire)
      else if c_expire c > 0 then Some (now + c_expire c)
      else None)"

definition AddEx ::
  "('k, 'v) LRU \<Rightarrow> 'k \<Rightarrow> 'v \<Rightarrow> duration \<Rightarrow> instant \<Rightarrow> error + (bool \<times> ('k, 'v) LRU)" where
  "AddEx c k v expire now =
     (let ex = expiration c expire now in
      case items c k of
        Some ent \<Rightarrow>
          (case deref (heap c) ent of
             None \<Rightarrow> Inl InvalidAddress
           | Some kv \<Rightarrow>
               Inr (False,
                    c\<lparr>evictList := list_MoveToFront (evictList c) ent,
                      heap := (heap c)[ent := kv\<lparr>e_value := v, e_expire := ex\<rparr>]\<rparr>))
      | None \<Rightarrow>
          (let a = length (heap c);
               c1 = c\<lparr>heap := heap c @ [\<lparr>e_key = k, e_value = v, e_expire = ex\<rparr>],
                      evictList := list_PushFront (evictList c) a,
                      items := (items c)(k \<mapsto> a)\<rparr>;
               evict = (Len c1 > c_size c1)
           in if evict
              then (case removeOldest c1 of Inl err \<Rightarrow> Inl err | Inr c2 \<Rightarrow> Inr (True, c2))
              else Inr (False, c1)))"

definition Add :: "('k, 'v) LRU \<Rightarrow> 'k \<Rightarrow> 'v \<Rightarrow> instant \<Rightarrow> error + (bool \<times> ('k, 'v) LRU)" where
  "Add c k v now = AddEx c k v 0 now"

text \<open>
  The results \<^verbatim>\<open>(value, ok)\<close> are a pair whose first component is \<open>None\<close> for Go's
  nil. The test \<^verbatim>\<open>v == nil\<close> of \<^verbatim>\<open>Get\<close> comes after \<open>v\<close> has been dereferenced
  and is never true: the model has no branch for it.
\<close>

definition Get ::
  "('k, 'v) LRU \<Rightarrow> 'k \<Rightarrow> instant \<Rightarrow> error + (('v option \<times> bool) \<times> ('k, 'v) LRU)" where
  "Get c k now =
     (case items c k of
        Some ent \<Rightarrow>
          (case deref (heap c) ent of
             None \<Rightarrow> Inl InvalidAddress
           | Some v \<Rightarrow>
               if IsExpired v now then Inr ((None, False), c)
               else Inr ((Some (e_value v), True),
                         c\<lparr>evictList := list_MoveToFront (evictList c) ent\<rparr>))
      | None \<Rightarrow> Inr ((None, False), c))"

definition Contains :: "('k, 'v) LRU \<Rightarrow> 'k \<Rightarrow> instant \<Rightarrow> error + (bool \<times> ('k, 'v) LRU)" where
  "Contains c k now =
     (case items c k of
        Some ent \<Rightarrow>
          (case deref (heap c) ent of
             None \<Rightarrow> Inl InvalidAddress
           | Some v \<Rightarrow> Inr (\<not> IsExpired v now, c))
      | None \<Rightarrow> Inr (False, c))"

definition Peek ::
  "('k, 'v) LRU \<Rightarrow> 'k \<Rightarrow> instant \<Rightarrow> error + (('v option \<times> bool) \<times> ('k, 'v) LRU)" where
  "Peek c k now =
     (case items c k of
        Some ent \<Rightarrow>
          (case deref (heap c) ent of
             None \<Rightarrow> Inl InvalidAddress
           | Some v \<Rightarrow>
               if IsExpired v now then Inr ((None, False), c)
               else Inr ((Some (e_value v), True), c))
      | None \<Rightarrow> Inr ((None, False), c))"

definition Remove :: "('k, 'v) LRU \<Rightarrow> 'k \<Rightarrow> error + (bool \<times> ('k, 'v) LRU)" where
  "Remove c k =
     (case items c k of
        Some ent \<Rightarrow>
          (case removeElement c (Some ent) of
             Inl err \<Rightarrow> Inl err
           | Inr c' \<Rightarrow> Inr (True, c'))
      | None \<Rightarrow> Inr (False, c))"

lemma remove1_last_length:
  "l \<noteq> [] \<Longrightarrow> length (remove1 (last l) l) < length l"
  by (simp add: length_remove1)

lemma removeElement_shorter:
  "removeElement c (Some a) = Inr c' \<Longrightarrow> a \<in> set (evictList c) \<Longrightarrow>
   length (evictList c') < length (evictList c)"
proof -
  assume r: "removeElement c (Some a) = Inr c'" and a: "a \<in> set (evictList c)"
  from r have "evictList c' = remove1 a (evictList c)"
    by (auto simp: removeElement_def list_Remove_def split: option.splits)
  moreover from a have "0 < length (evictList c)"
    by (rule length_pos_if_in_set)
  ultimately show ?thesis using a by (simp add: length_remove1)
qed

lemma list_Back_Some: "list_Back l = Some a \<Longrightarrow> a \<in> set l"
  by (auto simp: list_Back_def split: if_splits)

lemma list_Next_Some: "list_Next l a = Some b \<Longrightarrow> b \<in> set l"
proof -
  assume h: "list_Next l a = Some b"
  then obtain x ys where "dropWhile (\<lambda>x. x \<noteq> a) l = x # b # ys"
    by (auto simp: list_Next_def split: list.splits)
  then have "b \<in> set (dropWhile (\<lambda>x. x \<noteq> a) l)" by simp
  then show ?thesis by (rule set_dropWhileD)
qed

text \<open>
  \<^verbatim>\<open>RemoveOldest\<close>: the label \<^verbatim>\<open>LOOP\<close> and its \<^verbatim>\<open>goto\<close> are the recursion. The
  element is unlinked first and its entry read afterwards, as in the source. Each pass
  reads the clock once; the recursive call sees the remaining readings.
\<close>

function RemoveOldest ::
  "('k, 'v) LRU \<Rightarrow> (nat \<Rightarrow> instant) \<Rightarrow>
   error + (('k option \<times> 'v option \<times> bool) \<times> ('k, 'v) LRU)" where
  "RemoveOldest c clk =
     (case list_Back (evictList c) of
        None \<Rightarrow> Inr ((None, None, False), c)
      | Some ent \<Rightarrow>
          (case removeElement c (Some ent) of
             Inl err \<Rightarrow> Inl err
           | Inr c' \<Rightarrow>
               (case deref (heap c') ent of
                  None \<Rightarrow> Inl InvalidAddress
                | Some kv \<Rightarrow>
                    if IsExpired kv (clk 0) then RemoveOldest c' (\<lambda>n. clk (Suc n))
                    else Inr ((Some (e_key kv), Some (e_value kv), True), c'))))"
  by pat_completeness auto
termination
proof (relation "measure (\<lambda>(c, clk). length (evictList c))", goal_cases)
  case 1
  show ?case by simp
next
  case (2 c clk ent c' kv)
  from 2(1) have "ent \<in> set (evictList c)" by (rule list_Back_Some)
  with 2(2) have "length (evictList c') < length (evictList c)"
    by (rule removeElement_shorter)
  then show ?case by simp
qed

text \<open>
  \<^verbatim>\<open>GetOldest\<close>: on an expired back element the source calls
  \<^verbatim>\<open>c.removeElement(ent.Next())\<close>, the element after the back one.
\<close>

function GetOldest ::
  "('k, 'v) LRU \<Rightarrow> (nat \<Rightarrow> instant) \<Rightarrow>
   error + (('k option \<times> 'v option \<times> bool) \<times> ('k, 'v) LRU)" where
  "GetOldest c clk =
     (case list_Back (evictList c) of
        None \<Rightarrow> Inr ((None, None, False), c)
      | Some ent \<Rightarrow>
          (case deref (heap c) ent of
             None \<Rightarrow> Inl InvalidAddress
           | Some kv \<Rightarrow>
               if IsExpired kv (clk 0)
               then (case removeElement c (list_Next (evictList c) ent) of
                       Inl err \<Rightarrow> Inl err
                     | Inr c' \<Rightarrow> GetOldest c' (\<lambda>n. clk (Suc n)))
               else Inr ((Some (e_key kv), Some (e_value kv), True), c)))"
  by pat_completeness auto
termination
proof (relation "measure (\<lambda>(c, clk). length (evictList c))", goal_cases)
  case 1
  show ?case by simp
next
  case (2 c clk ent kv c')
  from 2 obtain b where b: "list_Next (evictList c) ent = Some b"
    by (cases "list_Next (evictList c) ent") (auto simp: removeElement_def)
  with 2 show ?case
    by (auto dest: removeElement_shorter list_Next_Some)
qed

text \<open>The two loops are unfolded one pass at a time, by hand.\<close>

declare RemoveOldest.simps [simp del]
declare GetOldest.simps [simp del]

text \<open>
  \<^verbatim>\<open>Keys\<close> walks from the back with \<^verbatim>\<open>Prev()\<close>: the addresses in reverse order.
\<close>

fun Keys_loop ::
  "('k, 'v) entry list \<Rightarrow> addr list \<Rightarrow> (nat \<Rightarrow> instant) \<Rightarrow> 'k list \<Rightarrow> error + 'k list" where
  "Keys_loop h [] clk keys = Inr keys"
| "Keys_loop h (ent # rest) clk keys =
     (case deref h ent of
        None \<Rightarrow> Inl InvalidAddress
      | Some v \<Rightarrow>
          if IsExpired v (clk 0) then Keys_loop h rest (\<lambda>n. clk (Suc n)) keys
          else Keys_loop h rest (\<lambda>n. clk (Suc n)) (keys @ [e_key v]))"

definition Keys :: "('k, 'v) LRU \<Rightarrow> (nat \<Rightarrow> instant) \<Rightarrow> error + ('k list \<times> ('k, 'v) LRU)" where
  "Keys c clk =
     (case Keys_loop (heap c) (rev (evictList c)) clk [] of
        Inl err \<Rightarrow> Inl err
      | Inr keys \<Rightarrow> Inr (keys, c))"

text \<open>
  \<^verbatim>\<open>Resize\<close>: Go's \<^verbatim>\<open>int\<close> has 64 bits on the usual platforms, and
  \<^verbatim>\<open>c.Len() - size\<close> wraps around there.
\<close>

definition wrap64 :: "int \<Rightarrow> int" where
  "wrap64 x = (x + 2 ^ 63) mod 2 ^ 64 - 2 ^ 63"

fun Resize_loop :: "nat \<Rightarrow> ('k, 'v) LRU \<Rightarrow> error + ('k, 'v) LRU" where
  "Resize_loop 0 c = Inr c"
| "Resize_loop (Suc n) c =
     (case removeOldest c of Inl err \<Rightarrow> Inl err | Inr c' \<Rightarrow> Resize_loop n c')"

definition Resize :: "('k, 'v) LRU \<Rightarrow> int \<Rightarrow> error + (int \<times> ('k, 'v) LRU)" where
  "Resize c sz =
     (let diff0 = wrap64 (Len c - sz);
          diff = (if diff0 < 0 then 0 else diff0)
      in case Resize_loop (nat diff) c of
           Inl err \<Rightarrow> Inl err
         | Inr c' \<Rightarrow> Inr (diff, c'\<lparr>c_size := sz\<rparr>))"

text \<open>
  \<^verbatim>\<open>Purge\<close> ranges over the map, in an order that the Go run time chooses: \<open>ks\<close> is
  that order, an enumeration of the keys of the map. The entry is read only when a
  callback is installed.
\<close>

fun Purge_loop :: "'k list \<Rightarrow> ('k, 'v) LRU \<Rightarrow> error + ('k, 'v) LRU" where
  "Purge_loop [] c = Inr c"
| "Purge_loop (k # ks) c =
     (case items c k of
        None \<Rightarrow> Purge_loop ks c
      | Some v \<Rightarrow>
          if onEvict c
          then (case deref (heap c) v of
                  None \<Rightarrow> Inl InvalidAddress
                | Some kv \<Rightarrow>
                    Purge_loop ks (c\<lparr>calls := calls c @ [(k, e_value kv)],
                                     items := (items c)(k := None)\<rparr>))
          else Purge_loop ks (c\<lparr>items := (items c)(k := None)\<rparr>))"

definition Purge :: "('k, 'v) LRU \<Rightarrow> 'k list \<Rightarrow> error + ('k, 'v) LRU" where
  "Purge c ks =
     (case Purge_loop ks c of
        Inl err \<Rightarrow> Inl err
      | Inr c' \<Rightarrow> Inr (c'\<lparr>evictList := []\<rparr>))"

section \<open>Well-formed states, sequences of operations and sample states\<close>

text \<open>
  What holds of the memory of a running cache: the elements of the list are pairwise
  different and allocated, the map sends the key of each of them to it, and every
  binding of the map is the key and the address of an element of the list.
\<close>

definition lru_inv :: "('k, 'v) LRU \<Rightarrow> bool" where
  "lru_inv c \<longleftrightarrow>
     distinct (evictList c) \<and>
     (\<forall>a \<in> set (evictList c). a < length (heap c) \<and> items c (e_key (heap c ! a)) = Some a) \<and>
     (\<forall>k a. items c k = Some a \<longrightarrow> a \<in> set (evictList c) \<and> e_key (heap c ! a) = k)"

text \<open>
  The public operations as data, each with the clock readings it takes, so that a use of
  the cache is a list of them. \<open>exec\<close> runs one and keeps the cache, \<open>run\<close> runs a list
  and stops at the first panic.
\<close>

datatype ('k, 'v) op =
    OpAdd 'k 'v instant
  | OpAddEx 'k 'v duration instant
  | OpGet 'k instant
  | OpContains 'k instant
  | OpPeek 'k instant
  | OpRemove 'k
  | OpRemoveOldest "nat \<Rightarrow> instant"
  | OpGetOldest "nat \<Rightarrow> instant"
  | OpKeys "nat \<Rightarrow> instant"
  | OpLen
  | OpResize int
  | OpPurge "'k list"

definition state_of :: "error + ('r \<times> ('k, 'v) LRU) \<Rightarrow> error + ('k, 'v) LRU" where
  "state_of r = (case r of Inl err \<Rightarrow> Inl err | Inr (x, c) \<Rightarrow> Inr c)"

fun exec :: "('k, 'v) LRU \<Rightarrow> ('k, 'v) op \<Rightarrow> error + ('k, 'v) LRU" where
  "exec c (OpAdd k v now) = state_of (Add c k v now)"
| "exec c (OpAddEx k v expire now) = state_of (AddEx c k v expire now)"
| "exec c (OpGet k now) = state_of (Get c k now)"
| "exec c (OpContains k now) = state_of (Contains c k now)"
| "exec c (OpPeek k now) = state_of (Peek c k now)"
| "exec c (OpRemove k) = state_of (Remove c k)"
| "exec c (OpRemoveOldest clk) = state_of (RemoveOldest c clk)"
| "exec c (OpGetOldest clk) = state_of (GetOldest c clk)"
| "exec c (OpKeys clk) = state_of (Keys c clk)"
| "exec c OpLen = Inr c"
| "exec c (OpResize sz) = state_of (Resize c sz)"
| "exec c (OpPurge ks) = Purge c ks"


fun run :: "('k, 'v) LRU \<Rightarrow> ('k, 'v) op list \<Rightarrow> error + ('k, 'v) LRU" where
  "run c [] = Inr c"
| "run c (x # xs) = (case exec c x of Inl err \<Rightarrow> Inl err | Inr c' \<Rightarrow> run c' xs)"


fun is_put :: "('k, 'v) op \<Rightarrow> bool" where
  "is_put (OpAdd k v now) = True"
| "is_put (OpAddEx k v expire now) = True"
| "is_put _ = False"

text \<open>The entries of the list from the back, the order in which the loops meet them.\<close>

definition back_entries :: "('k, 'v) LRU \<Rightarrow> ('k, 'v) entry list" where
  "back_entries c = map (\<lambda>a. heap c ! a) (rev (evictList c))"

text \<open>How many entries at the head of \<open>es\<close> are expired, the first one at \<open>clk 0\<close>.\<close>

fun expired_run :: "('k, 'v) entry list \<Rightarrow> (nat \<Rightarrow> instant) \<Rightarrow> nat" where
  "expired_run [] clk = 0"
| "expired_run (e # es) clk =
     (if IsExpired e (clk 0) then Suc (expired_run es (\<lambda>n. clk (Suc n))) else 0)"

definition call_of :: "('k, 'v) entry \<Rightarrow> 'k \<times> 'v" where
  "call_of e = (e_key e, e_value e)"

text \<open>
  A sample state, reached by \<^verbatim>\<open>NewLRU(2, cb)\<close>, \<^verbatim>\<open>AddEx(1, 10, 5)\<close> and
  \<^verbatim>\<open>Add(2, 20)\<close> at instant \<open>0\<close>: key \<open>1\<close>, expiring at \<open>5\<close>, is at the back.
\<close>

definition two_entries :: "(nat, nat) LRU" where
  "two_entries =
     \<lparr>c_size = 2, evictList = [1, 0], items = [1 \<mapsto> 0, 2 \<mapsto> 1], c_expire = 0,
      onEvict = True,
      heap = [\<lparr>e_key = 1, e_value = 10, e_expire = Some 5\<rparr>,
              \<lparr>e_key = 2, e_value = 20, e_expire = None\<rparr>],
      calls = []\<rparr>"

text \<open>A cache from its construction through a sequence of operations.\<close>

definition session ::
  "int \<Rightarrow> duration \<Rightarrow> bool \<Rightarrow> ('k, 'v) op list \<Rightarrow> error + ('k, 'v) LRU" where
  "session sz expire cb xs =
     (case NewLRUWithExpire sz expire cb of Inl err \<Rightarrow> Inl err | Inr c \<Rightarrow> run c xs)"

section \<open>Properties of the operations\<close>

lemma lru_inv_remove:
  assumes "lru_inv c" and "a \<in> set (evictList c)"
  shows "lru_inv (c\<lparr>evictList := remove1 a (evictList c),
                    items := (items c)(e_key (heap c ! a) := None),
                    calls := cs\<rparr>)"
proof -
  let ?l = "evictList c"
  from assms(1) have d: "distinct ?l"
    and l: "\<And>b. b \<in> set ?l \<Longrightarrow> b < length (heap c) \<and> items c (e_key (heap c ! b)) = Some b"
    and m: "\<And>k b. items c k = Some b \<Longrightarrow> b \<in> set ?l \<and> e_key (heap c ! b) = k"
    unfolding lru_inv_def by blast+
  have s: "set (remove1 a ?l) = set ?l - {a}" using d by (rule set_remove1_eq)
  have 2: "b < length (heap c) \<and> e_key (heap c ! b) \<noteq> e_key (heap c ! a) \<and>
           items c (e_key (heap c ! b)) = Some b"
    if "b \<in> set ?l" "b \<noteq> a" for b
  proof -
    from l[OF that(1)] l[OF assms(2)] that(2) have "e_key (heap c ! b) \<noteq> e_key (heap c ! a)" by auto
    with l[OF that(1)] show ?thesis by simp
  qed
  have 3: "b \<in> set ?l \<and> b \<noteq> a \<and> e_key (heap c ! b) = k"
    if i: "items c k = Some b" and k: "k \<noteq> e_key (heap c ! a)" for k b
  proof -
    from m[OF i] k have "b \<noteq> a" by auto
    with m[OF i] show ?thesis by simp
  qed
  show ?thesis unfolding lru_inv_def
  proof (intro conjI ballI allI impI)
    show "distinct (evictList (c\<lparr>evictList := remove1 a ?l, items := (items c)(e_key (heap c ! a) := None), calls := cs\<rparr>))"
      using d by simp
  qed (simp_all add: s 2 3 split: if_splits)
qed

lemma set_MoveToFront: "set (list_MoveToFront l a) = set l"
proof (cases "a \<in> set l")
  case True
  have "set (remove1 a l) \<subseteq> set l" by (rule set_remove1_subset)
  moreover have "x \<in> set (remove1 a l)" if "x \<in> set l" "x \<noteq> a" for x
    using that by (simp add: in_set_remove1)
  ultimately have "insert a (set (remove1 a l)) = set l" using True by blast
  with True show ?thesis by (simp add: list_MoveToFront_def)
next
  case False
  then show ?thesis by (simp add: list_MoveToFront_def)
qed

lemma distinct_MoveToFront: "distinct l \<Longrightarrow> distinct (list_MoveToFront l a)"
  by (simp add: list_MoveToFront_def)

lemma length_MoveToFront: "length (list_MoveToFront l a) = length l"
proof (cases "a \<in> set l")
  case True
  then have "0 < length l" by (rule length_pos_if_in_set)
  with True show ?thesis by (simp add: list_MoveToFront_def length_remove1)
next
  case False
  then show ?thesis by (simp add: list_MoveToFront_def)
qed

lemma lru_inv_update:
  assumes "lru_inv c"
  shows "lru_inv (c\<lparr>evictList := list_MoveToFront (evictList c) a,
                    heap := (heap c)[a := (heap c ! a)\<lparr>e_value := v, e_expire := ex\<rparr>]\<rparr>)"
proof -
  have k: "e_key (((heap c)[a := (heap c ! a)\<lparr>e_value := v, e_expire := ex\<rparr>]) ! b) = e_key (heap c ! b)"
    if "b < length (heap c)" for b
    using that by (cases "b = a") simp_all
  from assms have l: "\<And>b. b \<in> set (evictList c) \<Longrightarrow> b < length (heap c)"
    unfolding lru_inv_def by blast
  from assms show ?thesis
    unfolding lru_inv_def
    by (simp add: set_MoveToFront distinct_MoveToFront k l)
qed


lemma lru_inv_push:
  assumes "lru_inv c" and "items c k = None"
  shows "lru_inv (c\<lparr>heap := heap c @ [\<lparr>e_key = k, e_value = v, e_expire = ex\<rparr>],
                    evictList := list_PushFront (evictList c) (length (heap c)),
                    items := (items c)(k \<mapsto> length (heap c))\<rparr>)"
proof -
  let ?l = "evictList c" and ?n = "length (heap c)"
  let ?h = "heap c @ [\<lparr>e_key = k, e_value = v, e_expire = ex\<rparr>]"
  from assms(1) have d: "distinct ?l"
    and l: "\<And>b. b \<in> set ?l \<Longrightarrow> b < ?n \<and> items c (e_key (heap c ! b)) = Some b"
    and m: "\<And>k b. items c k = Some b \<Longrightarrow> b \<in> set ?l \<and> e_key (heap c ! b) = k"
    unfolding lru_inv_def by blast+
  have fresh: "?n \<notin> set ?l" using l by blast
  have old: "?h ! b = heap c ! b \<and> b < ?n \<and> b \<noteq> ?n \<and> e_key (heap c ! b) \<noteq> k \<and>
             items c (e_key (heap c ! b)) = Some b" if "b \<in> set ?l" for b
  proof -
    from l[OF that] assms(2) have "e_key (heap c ! b) \<noteq> k" by auto
    with l[OF that] show ?thesis by (simp add: nth_append)
  qed
  have 3: "b \<in> set ?l \<and> e_key (?h ! b) = k'" if "items c k' = Some b" for k' b
    using m[OF that] old by simp
  show ?thesis unfolding lru_inv_def list_PushFront_def
  proof (intro conjI ballI allI impI)
    show "distinct (evictList (c\<lparr>heap := ?h, evictList := ?n # ?l, items := (items c)(k \<mapsto> ?n)\<rparr>))"
      using d fresh by simp
  next
    fix b assume "b \<in> set (evictList (c\<lparr>heap := ?h, evictList := ?n # ?l, items := (items c)(k \<mapsto> ?n)\<rparr>))"
    then have "b = ?n \<or> b \<in> set ?l" by simp
    then show "b < length (heap (c\<lparr>heap := ?h, evictList := ?n # ?l, items := (items c)(k \<mapsto> ?n)\<rparr>))"
      using l by (auto simp: less_Suc_eq)
  next
    fix b assume "b \<in> set (evictList (c\<lparr>heap := ?h, evictList := ?n # ?l, items := (items c)(k \<mapsto> ?n)\<rparr>))"
    then have "b = ?n \<or> b \<in> set ?l" by simp
    then show "items (c\<lparr>heap := ?h, evictList := ?n # ?l, items := (items c)(k \<mapsto> ?n)\<rparr>)
                 (e_key (heap (c\<lparr>heap := ?h, evictList := ?n # ?l, items := (items c)(k \<mapsto> ?n)\<rparr>) ! b)) = Some b"
      using old by auto
  next
    fix k' b assume "items (c\<lparr>heap := ?h, evictList := ?n # ?l, items := (items c)(k \<mapsto> ?n)\<rparr>) k' = Some b"
    then have "(k' = k \<and> b = ?n) \<or> (k' \<noteq> k \<and> items c k' = Some b)"
      by (auto split: if_splits)
    then show "b \<in> set (evictList (c\<lparr>heap := ?h, evictList := ?n # ?l, items := (items c)(k \<mapsto> ?n)\<rparr>))"
      using 3 by auto
  next
    fix k' b assume "items (c\<lparr>heap := ?h, evictList := ?n # ?l, items := (items c)(k \<mapsto> ?n)\<rparr>) k' = Some b"
    then have "(k' = k \<and> b = ?n) \<or> (k' \<noteq> k \<and> items c k' = Some b)"
      by (auto split: if_splits)
    then show "e_key (heap (c\<lparr>heap := ?h, evictList := ?n # ?l, items := (items c)(k \<mapsto> ?n)\<rparr>) ! b) = k'"
      using 3 by auto
  qed
qed

lemma deref_Some: "a < length h \<Longrightarrow> deref h a = Some (h ! a)"
  by (simp add: deref_def)

lemma lru_inv_bound: "lru_inv c \<Longrightarrow> a \<in> set (evictList c) \<Longrightarrow> a < length (heap c)"
  unfolding lru_inv_def by blast

lemma lru_inv_distinct: "lru_inv c \<Longrightarrow> distinct (evictList c)"
  unfolding lru_inv_def by blast

lemma lru_inv_items: "lru_inv c \<Longrightarrow> items c k = Some a \<Longrightarrow> a \<in> set (evictList c)"
  unfolding lru_inv_def by blast

lemma removeElement_Some:
  "a < length (heap c) \<Longrightarrow>
   removeElement c (Some a) =
     Inr (c\<lparr>evictList := remove1 a (evictList c),
            items := (items c)(e_key (heap c ! a) := None),
            calls := (if onEvict c then calls c @ [(e_key (heap c ! a), e_value (heap c ! a))]
                      else calls c)\<rparr>)"
  by (simp add: removeElement_def deref_def list_Remove_def)

lemma remove1_last: "distinct l \<Longrightarrow> l \<noteq> [] \<Longrightarrow> remove1 (last l) l = butlast l"
proof -
  assume d: "distinct l" and n: "l \<noteq> []"
  then have l: "l = butlast l @ [last l]" by simp
  with d have "distinct (butlast l @ [last l])" by simp
  then have "last l \<notin> set (butlast l)" by simp
  then have "remove1 (last l) (butlast l @ [last l]) = butlast l"
    by (simp add: remove1_append)
  with l show ?thesis by simp
qed

lemma removeOldest_empty: "evictList c = [] \<Longrightarrow> removeOldest c = Inr c"
  by (simp add: removeOldest_def list_Back_def)

lemma removeOldest_back:
  assumes "lru_inv c" and "evictList c \<noteq> []"
  shows "removeOldest c =
     Inr (c\<lparr>evictList := butlast (evictList c),
            items := (items c)(e_key (heap c ! last (evictList c)) := None),
            calls := (if onEvict c
                      then calls c @ [(e_key (heap c ! last (evictList c)),
                                       e_value (heap c ! last (evictList c)))]
                      else calls c)\<rparr>)"
proof -
  from assms have "last (evictList c) < length (heap c)"
    by (simp add: lru_inv_bound)
  moreover have "remove1 (last (evictList c)) (evictList c) = butlast (evictList c)"
    using lru_inv_distinct[OF assms(1)] assms(2) by (rule remove1_last)
  ultimately show ?thesis using assms(2)
    by (simp add: removeOldest_def list_Back_def removeElement_Some)
qed

lemma removeOldest_inv:
  assumes "lru_inv c"
  shows "\<exists>c'. removeOldest c = Inr c' \<and> lru_inv c'"
proof (cases "evictList c = []")
  case True
  with assms show ?thesis by (simp add: removeOldest_empty)
next
  case False
  then have "last (evictList c) \<in> set (evictList c)" by simp
  from lru_inv_remove[OF assms this] remove1_last[OF lru_inv_distinct[OF assms] False]
  have "lru_inv (c\<lparr>evictList := butlast (evictList c),
            items := (items c)(e_key (heap c ! last (evictList c)) := None),
            calls := (if onEvict c
                      then calls c @ [(e_key (heap c ! last (evictList c)),
                                       e_value (heap c ! last (evictList c)))]
                      else calls c)\<rparr>)"
    by simp
  with removeOldest_back[OF assms False] show ?thesis by simp
qed

lemma expired_run_le: "expired_run es clk \<le> length es"
  by (induction es arbitrary: clk) simp_all

lemma expired_run_expired: "j < expired_run es clk \<Longrightarrow> IsExpired (es ! j) (clk j)"
proof (induction es arbitrary: clk j)
  case Nil
  then show ?case by simp
next
  case (Cons e es)
  then show ?case by (cases j) (auto split: if_splits)
qed

lemma expired_run_fresh:
  "expired_run es clk < length es \<Longrightarrow> \<not> IsExpired (es ! expired_run es clk) (clk (expired_run es clk))"
proof (induction es arbitrary: clk)
  case Nil
  then show ?case by simp
next
  case (Cons e es)
  then show ?case by (cases "IsExpired e (clk 0)") simp_all
qed

lemma back_entries_Nil: "evictList c = [] \<Longrightarrow> back_entries c = []"
  by (simp add: back_entries_def)

lemma length_back_entries: "length (back_entries c) = length (evictList c)"
  by (simp add: back_entries_def)

lemma rev_snoc_last: "l \<noteq> [] \<Longrightarrow> rev l = last l # rev (butlast l)"
proof -
  assume "l \<noteq> []"
  then have "l = butlast l @ [last l]" by simp
  then have "rev l = rev (butlast l @ [last l])" by simp
  then show ?thesis by simp
qed

lemma back_entries_Cons:
  assumes "evictList c \<noteq> []" and "heap c1 = heap c" and "evictList c1 = butlast (evictList c)"
  shows "back_entries c = heap c ! last (evictList c) # back_entries c1"
  using assms by (simp add: back_entries_def rev_snoc_last)

lemma take_butlast_le: "k \<le> length l - 1 \<Longrightarrow> take k (butlast l) = take k l"
  by (simp add: butlast_conv_take min_def)

lemma removeOldest_fields:
  assumes "lru_inv c" and "evictList c \<noteq> []"
  shows "\<exists>c1. removeOldest c = Inr c1 \<and> lru_inv c1 \<and>
           evictList c1 = butlast (evictList c) \<and>
           items c1 = (items c)(e_key (heap c ! last (evictList c)) := None) \<and>
           calls c1 = calls c @ (if onEvict c then [call_of (heap c ! last (evictList c))] else []) \<and>
           heap c1 = heap c \<and> c_size c1 = c_size c \<and> c_expire c1 = c_expire c \<and>
           onEvict c1 = onEvict c"
proof -
  from removeOldest_inv[OF assms(1)] obtain c1 where
    c1: "removeOldest c = Inr c1" and inv: "lru_inv c1" by blast
  from c1 removeOldest_back[OF assms] have
    "c1 = c\<lparr>evictList := butlast (evictList c),
            items := (items c)(e_key (heap c ! last (evictList c)) := None),
            calls := (if onEvict c
                      then calls c @ [(e_key (heap c ! last (evictList c)),
                                       e_value (heap c ! last (evictList c)))]
                      else calls c)\<rparr>" by simp
  then have "evictList c1 = butlast (evictList c) \<and>
           items c1 = (items c)(e_key (heap c ! last (evictList c)) := None) \<and>
           calls c1 = calls c @ (if onEvict c then [call_of (heap c ! last (evictList c))] else []) \<and>
           heap c1 = heap c \<and> c_size c1 = c_size c \<and> c_expire c1 = c_expire c \<and>
           onEvict c1 = onEvict c"
    by (simp add: call_of_def)
  with c1 inv show ?thesis by blast
qed

lemma RemoveOldest_empty:
  "evictList c = [] \<Longrightarrow> RemoveOldest c clk = Inr ((None, None, False), c)"
  by (subst RemoveOldest.simps) (simp add: list_Back_def)

lemma RemoveOldest_step:
  assumes "evictList c \<noteq> []" and "removeOldest c = Inr c1" and "heap c1 = heap c"
    and "last (evictList c) < length (heap c)"
  shows "RemoveOldest c clk =
     (if IsExpired (heap c ! last (evictList c)) (clk 0)
      then RemoveOldest c1 (\<lambda>n. clk (Suc n))
      else Inr ((Some (e_key (heap c ! last (evictList c))),
                 Some (e_value (heap c ! last (evictList c))), True), c1))"
proof -
  from assms(1,2) have "removeElement c (Some (last (evictList c))) = Inr c1"
    by (simp add: removeOldest_def list_Back_def)
  with assms(1,3,4) show ?thesis
    by (subst RemoveOldest.simps) (simp add: list_Back_def deref_def)
qed

lemma RemoveOldest_fields:
  assumes "lru_inv c"
  shows "\<exists>r c'. RemoveOldest c clk = Inr (r, c') \<and> lru_inv c' \<and>
           evictList c' =
             take (length (back_entries c) - min (length (back_entries c)) (Suc (expired_run (back_entries c) clk)))
               (evictList c) \<and>
           calls c' = calls c @
             (if onEvict c
              then map call_of (take (min (length (back_entries c)) (Suc (expired_run (back_entries c) clk)))
                                  (back_entries c))
              else []) \<and>
           items c' = (\<lambda>k. if k \<in> e_key ` set (take (min (length (back_entries c))
                                                      (Suc (expired_run (back_entries c) clk)))
                                                 (back_entries c))
                            then None else items c k) \<and>
           heap c' = heap c \<and> c_size c' = c_size c \<and> c_expire c' = c_expire c \<and>
           onEvict c' = onEvict c \<and>
           r = (if expired_run (back_entries c) clk < length (back_entries c)
                then (Some (e_key (back_entries c ! expired_run (back_entries c) clk)),
                      Some (e_value (back_entries c ! expired_run (back_entries c) clk)), True)
                else (None, None, False))"
  using assms
proof (induction "length (evictList c)" arbitrary: c clk)
  case 0
  then have e: "evictList c = []" by simp
  have "(\<lambda>k. items c k) = items c" by simp
  with e 0(2) show ?case
    by (simp add: RemoveOldest_empty back_entries_Nil)
next
  case (Suc x)
  let ?l = "evictList c"
  let ?kv = "heap c ! last ?l"
  from Suc(2) have ne: "?l \<noteq> []" by auto
  from removeOldest_fields[OF Suc(3) ne] obtain c1 where
    r1: "removeOldest c = Inr c1" and inv1: "lru_inv c1" and
    l1: "evictList c1 = butlast ?l" and
    i1: "items c1 = (items c)(e_key ?kv := None)" and
    k1: "calls c1 = calls c @ (if onEvict c then [call_of ?kv] else [])" and
    h1: "heap c1 = heap c" and s1: "c_size c1 = c_size c" and
    x1: "c_expire c1 = c_expire c" and o1: "onEvict c1 = onEvict c"
    by blast
  let ?es1 = "back_entries c1"
  have es: "back_entries c = ?kv # ?es1"
    using ne h1 l1 by (rule back_entries_Cons)
  have len1: "length ?es1 = x"
    using Suc(2) l1 by (simp add: length_back_entries)
  have lenl: "length ?l = Suc x" using Suc(2) by simp
  have bound: "last ?l < length (heap c)"
    using Suc(3) ne by (simp add: lru_inv_bound)
  note stp = RemoveOldest_step[OF ne r1 h1 bound, of clk]
  show ?case
  proof (cases "IsExpired ?kv (clk 0)")
    case True
    let ?clk = "\<lambda>n. clk (Suc n)"
    let ?m1 = "expired_run ?es1 ?clk"
    let ?n1 = "min (length ?es1) (Suc ?m1)"
    have m: "expired_run (back_entries c) clk = Suc ?m1"
      using True es by simp
    have n: "min (length (back_entries c)) (Suc (Suc ?m1)) = Suc ?n1"
      using es by simp
    from len1 l1 have "x = length (evictList c1)" by (simp add: length_back_entries)
    from Suc(1)[OF this inv1, of ?clk] obtain r c' where
      run: "RemoveOldest c1 ?clk = Inr (r, c')" and inv': "lru_inv c'" and
      l': "evictList c' = take (length ?es1 - ?n1) (evictList c1)" and
      k': "calls c' = calls c1 @ (if onEvict c1 then map call_of (take ?n1 ?es1) else [])" and
      i': "items c' = (\<lambda>k. if k \<in> e_key ` set (take ?n1 ?es1) then None else items c1 k)" and
      h': "heap c' = heap c1" and s': "c_size c' = c_size c1" and
      x': "c_expire c' = c_expire c1" and o': "onEvict c' = onEvict c1" and
      r': "r = (if ?m1 < length ?es1
                then (Some (e_key (?es1 ! ?m1)), Some (e_value (?es1 ! ?m1)), True)
                else (None, None, False))"
      by blast
    have A: "RemoveOldest c clk = Inr (r, c')" using stp True run by simp
    have B: "evictList c' = take (length (back_entries c) - Suc ?n1) ?l"
    proof -
      have "length ?es1 - ?n1 \<le> length ?l - 1" using len1 lenl by simp
      then have "take (length ?es1 - ?n1) (butlast ?l) = take (length ?es1 - ?n1) ?l"
        by (rule take_butlast_le)
      with l' l1 es show ?thesis by simp
    qed
    have C: "calls c' = calls c @ (if onEvict c then map call_of (take (Suc ?n1) (back_entries c)) else [])"
      using k' k1 o1 es by simp
    have D: "items c' = (\<lambda>k. if k \<in> e_key ` set (take (Suc ?n1) (back_entries c)) then None else items c k)"
      unfolding i' i1 es by (rule ext) simp
    have E: "r = (if Suc ?m1 < length (back_entries c)
                then (Some (e_key (back_entries c ! Suc ?m1)), Some (e_value (back_entries c ! Suc ?m1)), True)
                else (None, None, False))"
      unfolding r' es by simp
    have H: "heap c' = heap c" using h' h1 by simp
    have S: "c_size c' = c_size c" using s' s1 by simp
    have X: "c_expire c' = c_expire c" using x' x1 by simp
    have O: "onEvict c' = onEvict c" using o' o1 by simp
    show ?thesis unfolding m n
      by (rule exI[of _ r], rule exI[of _ c']) (intro conjI A inv' B C D H S X O E)
  next
    case False
    have m: "expired_run (back_entries c) clk = 0"
      using False es by simp
    have n: "min (length (back_entries c)) (Suc 0) = Suc 0"
      using es by simp
    have A: "RemoveOldest c clk = Inr ((Some (e_key ?kv), Some (e_value ?kv), True), c1)"
      using stp False by simp
    have B: "evictList c1 = take (length (back_entries c) - Suc 0) ?l"
      using l1 es lenl by (simp add: butlast_conv_take length_back_entries)
    have C: "calls c1 = calls c @ (if onEvict c then map call_of (take (Suc 0) (back_entries c)) else [])"
      using k1 es by simp
    have D: "items c1 = (\<lambda>k. if k \<in> e_key ` set (take (Suc 0) (back_entries c)) then None else items c k)"
      unfolding i1 es by (rule ext) simp
    have E: "(Some (e_key ?kv), Some (e_value ?kv), True) =
             (if 0 < length (back_entries c)
                then (Some (e_key (back_entries c ! 0)), Some (e_value (back_entries c ! 0)), True)
                else (None, None, False))"
      unfolding es by simp
    show ?thesis unfolding m n
      by (rule exI[of _ "(Some (e_key ?kv), Some (e_value ?kv), True)"], rule exI[of _ c1])
         (intro conjI A inv1 B C D h1 s1 x1 o1 E)
  qed
qed

lemma two_entries_inv: "lru_inv two_entries"
  by (simp add: lru_inv_def two_entries_def)

lemma two_entries_run:
  "NewLRU 2 True = Inr c0 \<Longrightarrow> run c0 [OpAddEx 1 10 5 0, OpAdd 2 20 0] = Inr two_entries"
  by (auto simp: NewLRU_def NewLRUWithExpire_def two_entries_def state_of_def AddEx_def Add_def
      expiration_def list_PushFront_def Len_def)

lemma lru_inv_key: "lru_inv c \<Longrightarrow> items c k = Some a \<Longrightarrow> e_key (heap c ! a) = k"
  unfolding lru_inv_def by blast

lemma AddEx_hit:
  assumes "lru_inv c" and "items c k = Some a"
  shows "AddEx c k v ttl now =
     Inr (False,
          c\<lparr>evictList := list_MoveToFront (evictList c) a,
            heap := (heap c)[a := (heap c ! a)\<lparr>e_value := v, e_expire := expiration c ttl now\<rparr>]\<rparr>)"
proof -
  from assms have "a < length (heap c)"
    by (simp add: lru_inv_items lru_inv_bound)
  then have "deref (heap c) a = Some (heap c ! a)" by (rule deref_Some)
  with assms(2) show ?thesis by (simp add: AddEx_def)
qed

lemma AddEx_miss:
  assumes "items c k = None"
  shows "AddEx c k v ttl now =
     (if Len c + 1 > c_size c
      then (case removeOldest
                   (c\<lparr>heap := heap c @ [\<lparr>e_key = k, e_value = v, e_expire = expiration c ttl now\<rparr>],
                      evictList := list_PushFront (evictList c) (length (heap c)),
                      items := (items c)(k \<mapsto> length (heap c))\<rparr>) of
              Inl err \<Rightarrow> Inl err
            | Inr c2 \<Rightarrow> Inr (True, c2))
      else Inr (False,
                c\<lparr>heap := heap c @ [\<lparr>e_key = k, e_value = v, e_expire = expiration c ttl now\<rparr>],
                  evictList := list_PushFront (evictList c) (length (heap c)),
                  items := (items c)(k \<mapsto> length (heap c))\<rparr>))"
  using assms by (simp add: AddEx_def Let_def Len_def list_PushFront_def)

lemma Resize_loop_fields:
  assumes "lru_inv c"
  shows "\<exists>c'. Resize_loop n c = Inr c' \<and> lru_inv c' \<and>
           evictList c' = take (length (evictList c) - n) (evictList c) \<and>
           calls c' = calls c @ (if onEvict c then map call_of (take n (back_entries c)) else []) \<and>
           items c' = (\<lambda>k. if k \<in> e_key ` set (take n (back_entries c)) then None else items c k) \<and>
           heap c' = heap c \<and> c_size c' = c_size c \<and> c_expire c' = c_expire c \<and>
           onEvict c' = onEvict c"
  using assms
proof (induction n arbitrary: c)
  case 0
  have "(\<lambda>k. items c k) = items c" by simp
  with 0 show ?case by simp
next
  case (Suc n)
  show ?case
  proof (cases "evictList c = []")
    case True
    from Suc.IH[OF Suc.prems] obtain c' where
      run: "Resize_loop n c = Inr c'" and inv': "lru_inv c'" and
      l': "evictList c' = take (length (evictList c) - n) (evictList c)" and
      k': "calls c' = calls c @ (if onEvict c then map call_of (take n (back_entries c)) else [])" and
      i': "items c' = (\<lambda>k. if k \<in> e_key ` set (take n (back_entries c)) then None else items c k)" and
      r': "heap c' = heap c" "c_size c' = c_size c" "c_expire c' = c_expire c" "onEvict c' = onEvict c"
      by blast
    have es: "back_entries c = []" using True by (rule back_entries_Nil)
    have A: "Resize_loop (Suc n) c = Inr c'"
      using run True by (simp add: removeOldest_empty)
    have B: "evictList c' = take (length (evictList c) - Suc n) (evictList c)"
      using l' True by simp
    have C: "calls c' = calls c @ (if onEvict c then map call_of (take (Suc n) (back_entries c)) else [])"
      using k' unfolding es by simp
    have D: "items c' = (\<lambda>k. if k \<in> e_key ` set (take (Suc n) (back_entries c)) then None else items c k)"
      using i' unfolding es by simp
    show ?thesis
      by (rule exI[of _ c']) (intro conjI A inv' B C D r')
  next
    case False
    let ?kv = "heap c ! last (evictList c)"
    from removeOldest_fields[OF Suc.prems False] obtain c1 where
      r1: "removeOldest c = Inr c1" and inv1: "lru_inv c1" and
      l1: "evictList c1 = butlast (evictList c)" and
      i1: "items c1 = (items c)(e_key ?kv := None)" and
      k1: "calls c1 = calls c @ (if onEvict c then [call_of ?kv] else [])" and
      h1: "heap c1 = heap c" and s1: "c_size c1 = c_size c" and
      x1: "c_expire c1 = c_expire c" and o1: "onEvict c1 = onEvict c"
      by blast
    have es: "back_entries c = ?kv # back_entries c1"
      using False h1 l1 by (rule back_entries_Cons)
    from Suc.IH[OF inv1] obtain c' where
      run: "Resize_loop n c1 = Inr c'" and inv': "lru_inv c'" and
      l': "evictList c' = take (length (evictList c1) - n) (evictList c1)" and
      k': "calls c' = calls c1 @ (if onEvict c1 then map call_of (take n (back_entries c1)) else [])" and
      i': "items c' = (\<lambda>k. if k \<in> e_key ` set (take n (back_entries c1)) then None else items c1 k)" and
      h': "heap c' = heap c1" and s': "c_size c' = c_size c1" and
      x': "c_expire c' = c_expire c1" and o': "onEvict c' = onEvict c1"
      by blast
    have A: "Resize_loop (Suc n) c = Inr c'" using run r1 by simp
    have B: "evictList c' = take (length (evictList c) - Suc n) (evictList c)"
    proof -
      have "length (evictList c) - Suc n \<le> length (evictList c) - 1" by simp
      then have "take (length (evictList c) - Suc n) (butlast (evictList c)) =
                 take (length (evictList c) - Suc n) (evictList c)"
        by (rule take_butlast_le)
      with l' l1 show ?thesis by simp
    qed
    have C: "calls c' = calls c @ (if onEvict c then map call_of (take (Suc n) (back_entries c)) else [])"
      using k' k1 o1 es by simp
    have D: "items c' = (\<lambda>k. if k \<in> e_key ` set (take (Suc n) (back_entries c)) then None else items c k)"
      unfolding i' i1 es by (rule ext) simp
    have H: "heap c' = heap c" using h' h1 by simp
    have S: "c_size c' = c_size c" using s' s1 by simp
    have X: "c_expire c' = c_expire c" using x' x1 by simp
    have O: "onEvict c' = onEvict c" using o' o1 by simp
    show ?thesis
      by (rule exI[of _ c']) (intro conjI A inv' B C D H S X O)
  qed
qed

lemma wrap64_id: "- (2 ^ 63) \<le> x \<Longrightarrow> x < 2 ^ 63 \<Longrightarrow> wrap64 x = x"
  by (simp add: wrap64_def)

lemma lru_inv_c_size: "lru_inv (c\<lparr>c_size := sz\<rparr>) = lru_inv c"
  by (simp add: lru_inv_def)













lemma AddEx_hit_result:
  assumes "lru_inv c" and "items c k = Some a"
  shows "\<exists>c'. AddEx c k v ttl now = Inr (False, c') \<and> lru_inv c' \<and>
           c_size c' = c_size c \<and> Len c' = Len c"
proof -
  let ?c' = "c\<lparr>evictList := list_MoveToFront (evictList c) a,
               heap := (heap c)[a := (heap c ! a)\<lparr>e_value := v, e_expire := expiration c ttl now\<rparr>]\<rparr>"
  have A: "AddEx c k v ttl now = Inr (False, ?c')" using assms by (rule AddEx_hit)
  have B: "lru_inv ?c'" using assms(1) by (rule lru_inv_update)
  have C: "c_size ?c' = c_size c" by simp
  have D: "Len ?c' = Len c" by (simp add: Len_def length_MoveToFront)
  show ?thesis by (rule exI[of _ ?c']) (intro conjI A B C D)
qed
lemma AddEx_miss_result:
  assumes "lru_inv c" and "items c k = None"
  shows "\<exists>c'. AddEx c k v ttl now = Inr (c_size c < Len c + 1, c') \<and> lru_inv c' \<and>
           c_size c' = c_size c \<and>
           Len c' = (if c_size c < Len c + 1 then Len c else Len c + 1)"
proof -
  let ?c1 = "c\<lparr>heap := heap c @ [\<lparr>e_key = k, e_value = v, e_expire = expiration c ttl now\<rparr>],
               evictList := list_PushFront (evictList c) (length (heap c)),
               items := (items c)(k \<mapsto> length (heap c))\<rparr>"
  have inv1: "lru_inv ?c1" using assms by (rule lru_inv_push)
  have ne: "evictList ?c1 \<noteq> []" by (simp add: list_PushFront_def)
  note miss = AddEx_miss[OF assms(2), of v ttl now]
  show ?thesis
  proof (cases "c_size c < Len c + 1")
    case True
    from removeOldest_fields[OF inv1 ne] obtain c2 where
      r: "removeOldest ?c1 = Inr c2" and inv2: "lru_inv c2" and
      e2: "evictList c2 = butlast (evictList ?c1)" and s2: "c_size c2 = c_size ?c1"
      by blast
    have A: "AddEx c k v ttl now = Inr (c_size c < Len c + 1, c2)" using miss True r by simp
    have C: "c_size c2 = c_size c" using s2 by simp
    have D: "Len c2 = (if c_size c < Len c + 1 then Len c else Len c + 1)"
      using True e2 by (simp add: Len_def list_PushFront_def)
    show ?thesis by (rule exI[of _ c2]) (intro conjI A inv2 C D)
  next
    case False
    have A: "AddEx c k v ttl now = Inr (c_size c < Len c + 1, ?c1)" using miss False by simp
    have C: "c_size ?c1 = c_size c" by simp
    have D: "Len ?c1 = (if c_size c < Len c + 1 then Len c else Len c + 1)"
      using False by (simp add: Len_def list_PushFront_def)
    show ?thesis by (rule exI[of _ ?c1]) (intro conjI A inv1 C D)
  qed
qed
lemma NewLRUWithExpire_inv: "NewLRUWithExpire sz expire cb = Inr c \<Longrightarrow> lru_inv c"
  by (auto simp: NewLRUWithExpire_def lru_inv_def split: if_splits)

lemma AddEx_inv:
  assumes "lru_inv c"
  shows "\<exists>r c'. AddEx c k v ttl now = Inr (r, c') \<and> lru_inv c' \<and> c_size c' = c_size c \<and>
           (Len c \<le> c_size c \<longrightarrow> Len c' \<le> c_size c')"
proof (cases "items c k")
  case None
  from AddEx_miss_result[OF assms None, of v ttl now] obtain c' where
    A: "AddEx c k v ttl now = Inr (c_size c < Len c + 1, c')" and
    B: "lru_inv c'" and C: "c_size c' = c_size c" and
    D: "Len c' = (if c_size c < Len c + 1 then Len c else Len c + 1)"
    by blast
  have "Len c \<le> c_size c \<longrightarrow> Len c' \<le> c_size c'"
    unfolding C D by simp
  with A B C show ?thesis by blast
next
  case (Some a)
  from AddEx_hit_result[OF assms Some, of v ttl now] obtain c' where
    "AddEx c k v ttl now = Inr (False, c')" "lru_inv c'" "Len c' = Len c" "c_size c' = c_size c"
    by blast
  then show ?thesis by auto
qed







lemma exec_put:
  assumes "lru_inv c" and "Len c \<le> c_size c" and "is_put x"
  shows "\<exists>c'. exec c x = Inr c' \<and> lru_inv c' \<and> Len c' \<le> c_size c' \<and> c_size c' = c_size c"
proof (cases x)
  case (OpAdd k v now)
  with AddEx_inv[OF assms(1), of k v 0 now] assms(2) show ?thesis
    by (auto simp: state_of_def Add_def)
next
  case (OpAddEx k v ttl now)
  with AddEx_inv[OF assms(1), of k v ttl now] assms(2) show ?thesis
    by (auto simp: state_of_def)
qed (use assms(3) in simp_all)

lemma run_puts:
  assumes "lru_inv c" and "Len c \<le> c_size c" and "\<forall>x\<in>set xs. is_put x"
  shows "\<exists>c'. run c xs = Inr c' \<and> lru_inv c' \<and> Len c' \<le> c_size c' \<and> c_size c' = c_size c"
  using assms
proof (induction xs arbitrary: c)
  case Nil
  then show ?case by simp
next
  case (Cons x xs)
  from Cons.prems(3) have x: "is_put x" and xs: "\<forall>x\<in>set xs. is_put x" by simp_all
  from exec_put[OF Cons.prems(1,2) x] obtain c1 where
    e: "exec c x = Inr c1" and i: "lru_inv c1" and l: "Len c1 \<le> c_size c1" and
    s: "c_size c1 = c_size c" by blast
  from Cons.IH[OF i l xs] obtain c' where
    "run c1 xs = Inr c'" "lru_inv c'" "Len c' \<le> c_size c'" "c_size c' = c_size c1" by blast
  with e s show ?case by simp
qed

lemma AddEx_miss_evicts:
  assumes "lru_inv c" and "Len c \<le> c_size c" and "items c k = None"
  shows "\<exists>c'. AddEx c k v ttl now = Inr (c_size c < Len c + 1, c') \<and> Len c' \<le> c_size c'"
proof -
  from AddEx_miss_result[OF assms(1,3), of v ttl now] obtain c' where
    A: "AddEx c k v ttl now = Inr (c_size c < Len c + 1, c')" and
    C: "c_size c' = c_size c" and
    D: "Len c' = (if c_size c < Len c + 1 then Len c else Len c + 1)"
    by blast
  have "Len c' \<le> c_size c'"
    using assms(2) unfolding C D by simp
  with A show ?thesis by blast
qed

section \<open>The claims\<close>

text \<open>
  C8. When \<open>k\<close> is in the map and its entry has expired at the clock reading of the
  call, \<^verbatim>\<open>Get\<close> answers \<^verbatim>\<open>(nil, false)\<close> and returns the cache as it was: the same
  list in the same order, the same map, the same entries, no call of the callback. The
  expired element is still in the list, so \<^verbatim>\<open>Len\<close> still counts it.
\<close>

theorem Get_expired_is_miss:
  assumes "lru_inv c" and "items c k = Some a" and "IsExpired (heap c ! a) now"
  shows "Get c k now = Inr ((None, False), c) \<and> a \<in> set (evictList c) \<and> 0 < Len c"
proof -
  from assms(1,2) have a: "a \<in> set (evictList c)" and "a < length (heap c)"
    by (auto simp: lru_inv_def)
  then have "deref (heap c) a = Some (heap c ! a)"
    by (simp add: deref_def)
  with assms(2,3) have "Get c k now = Inr ((None, False), c)"
    by (simp add: Get_def)
  moreover from a have "0 < Len c"
    by (auto simp: Len_def)
  ultimately show ?thesis using a by simp
qed

theorem Get_expired_is_miss_witness:
  "lru_inv \<lparr>c_size = 2, evictList = [0], items = [1::nat \<mapsto> 0], c_expire = 0, onEvict = True,
            heap = [\<lparr>e_key = 1, e_value = 10::nat, e_expire = Some 5\<rparr>], calls = []\<rparr> \<and>
   IsExpired \<lparr>e_key = 1::nat, e_value = 10::nat, e_expire = Some 5\<rparr> 6 \<and>
   Get \<lparr>c_size = 2, evictList = [0], items = [1::nat \<mapsto> 0], c_expire = 0, onEvict = True,
        heap = [\<lparr>e_key = 1, e_value = 10::nat, e_expire = Some 5\<rparr>], calls = []\<rparr> 1 6 =
   Inr ((None, False),
        \<lparr>c_size = 2, evictList = [0], items = [1::nat \<mapsto> 0], c_expire = 0, onEvict = True,
         heap = [\<lparr>e_key = 1, e_value = 10::nat, e_expire = Some 5\<rparr>], calls = []\<rparr>)"
  using Get_expired_is_miss
    [of "\<lparr>c_size = 2, evictList = [0], items = [1::nat \<mapsto> 0], c_expire = 0, onEvict = True,
          heap = [\<lparr>e_key = 1, e_value = 10::nat, e_expire = Some 5\<rparr>], calls = []\<rparr>" 1 0 6]
  by (simp add: lru_inv_def IsExpired_def)

text \<open>
  C10. \<^verbatim>\<open>Remove\<close> of a key that is not in the map answers \<^verbatim>\<open>false\<close> and returns
  the cache as it was: list, map, entries and the log of callback calls are the same,
  and so is \<^verbatim>\<open>Len\<close>.
\<close>

theorem Remove_absent_unchanged:
  assumes "items c k = None"
  shows "Remove c k = Inr (False, c)"
  using assms by (simp add: Remove_def)

theorem Remove_absent_unchanged_witness:
  "items \<lparr>c_size = 2, evictList = [0], items = [1::nat \<mapsto> 0], c_expire = 0, onEvict = True,
          heap = [\<lparr>e_key = 1, e_value = 10::nat, e_expire = None\<rparr>], calls = []\<rparr> 7 = None \<and>
   Remove \<lparr>c_size = 2, evictList = [0], items = [1::nat \<mapsto> 0], c_expire = 0, onEvict = True,
           heap = [\<lparr>e_key = 1, e_value = 10::nat, e_expire = None\<rparr>], calls = []\<rparr> 7 =
   Inr (False,
        \<lparr>c_size = 2, evictList = [0], items = [1::nat \<mapsto> 0], c_expire = 0, onEvict = True,
         heap = [\<lparr>e_key = 1, e_value = 10::nat, e_expire = None\<rparr>], calls = []\<rparr>)"
  using Remove_absent_unchanged
    [of "\<lparr>c_size = 2, evictList = [0], items = [1::nat \<mapsto> 0], c_expire = 0, onEvict = True,
          heap = [\<lparr>e_key = 1, e_value = 10::nat, e_expire = None\<rparr>], calls = []\<rparr>" 7]
  by simp

text \<open>
  C5. \<^verbatim>\<open>RemoveOldest\<close> on any well-formed cache returns. With \<open>es\<close> the entries from
  the back and \<open>m\<close> the number of expired ones that the loop meets before the first live
  one (the \<open>j\<close>-th entry being tested at the \<open>j\<close>-th clock reading), it unlinks the
  \<open>n = min (length es) (m + 1)\<close> entries at the back, removes their keys from the map
  and calls the callback, when there is one, on each of them in that order. If a live
  entry was met (\<open>m < length es\<close>), the result is its key and value with \<open>true\<close>, and that
  entry is not expired at the reading at which it was tested; all entries removed before
  it are expired. Otherwise every entry was expired, the list is empty afterwards and
  the result is \<^verbatim>\<open>(nil, nil, false)\<close>.
\<close>

theorem RemoveOldest_skips_expired:
  fixes c :: "('k, 'v) LRU" and clk :: "nat \<Rightarrow> instant"
  assumes "lru_inv c"
  defines "es \<equiv> back_entries c"
  defines "m \<equiv> expired_run es clk"
  defines "n \<equiv> min (length es) (Suc m)"
  shows "\<exists>r c'. RemoveOldest c clk = Inr (r, c') \<and> lru_inv c' \<and>
           evictList c' = take (length es - n) (evictList c) \<and>
           calls c' = calls c @ (if onEvict c then map call_of (take n es) else []) \<and>
           items c' = (\<lambda>k. if k \<in> e_key ` set (take n es) then None else items c k) \<and>
           heap c' = heap c \<and> c_size c' = c_size c \<and>
           (\<forall>j<m. IsExpired (es ! j) (clk j)) \<and>
           (m < length es \<longrightarrow>
              r = (Some (e_key (es ! m)), Some (e_value (es ! m)), True) \<and>
              \<not> IsExpired (es ! m) (clk m)) \<and>
           (\<not> m < length es \<longrightarrow> r = (None, None, False) \<and> evictList c' = [])"
proof -
  from RemoveOldest_fields[OF assms(1), of clk] obtain r c' where
    A: "RemoveOldest c clk = Inr (r, c')" and B: "lru_inv c'" and
    C: "evictList c' = take (length es - n) (evictList c)" and
    D: "calls c' = calls c @ (if onEvict c then map call_of (take n es) else [])" and
    E: "items c' = (\<lambda>k. if k \<in> e_key ` set (take n es) then None else items c k)" and
    F: "heap c' = heap c" and G: "c_size c' = c_size c" and
    R: "r = (if m < length es
             then (Some (e_key (es ! m)), Some (e_value (es ! m)), True)
             else (None, None, False))"
    unfolding es_def m_def n_def by blast
  have H: "\<forall>j<m. IsExpired (es ! j) (clk j)"
    unfolding m_def by (simp add: expired_run_expired)
  have I: "m < length es \<longrightarrow>
              r = (Some (e_key (es ! m)), Some (e_value (es ! m)), True) \<and>
              \<not> IsExpired (es ! m) (clk m)"
    using R unfolding m_def by (simp add: expired_run_fresh)
  have J: "\<not> m < length es \<longrightarrow> r = (None, None, False) \<and> evictList c' = []"
  proof
    assume a: "\<not> m < length es"
    then have "n = length es" unfolding n_def by simp
    with C a R show "r = (None, None, False) \<and> evictList c' = []" by simp
  qed
  show ?thesis
    by (rule exI[of _ r], rule exI[of _ c']) (intro conjI A B C D E F G H I J)
qed


theorem RemoveOldest_skips_expired_witness:
  "lru_inv two_entries \<and>
   (\<exists>c'. RemoveOldest two_entries (\<lambda>n. 6) = Inr ((Some 2, Some 20, True), c') \<and>
         evictList c' = [] \<and> calls c' = [(1, 10), (2, 20)])"
proof -
  have h: "lru_inv two_entries" by (rule two_entries_inv)
  have es: "back_entries two_entries =
      [\<lparr>e_key = 1, e_value = 10, e_expire = Some 5\<rparr>, \<lparr>e_key = 2, e_value = 20, e_expire = None\<rparr>]"
    by (simp add: back_entries_def two_entries_def)
  have m: "expired_run (back_entries two_entries) (\<lambda>n. 6) = 1"
    unfolding es by (simp add: IsExpired_def)
  from RemoveOldest_skips_expired[OF h, of "\<lambda>n. 6"] obtain r c' where
    "RemoveOldest two_entries (\<lambda>n. 6) = Inr (r, c')"
    "evictList c' = take (length (back_entries two_entries) -
        min (length (back_entries two_entries)) (Suc (expired_run (back_entries two_entries) (\<lambda>n. 6))))
        (evictList two_entries)"
    "calls c' = calls two_entries @ (if onEvict two_entries then map call_of
        (take (min (length (back_entries two_entries)) (Suc (expired_run (back_entries two_entries) (\<lambda>n. 6))))
           (back_entries two_entries)) else [])"
    "expired_run (back_entries two_entries) (\<lambda>n. 6) < length (back_entries two_entries) \<longrightarrow>
       r = (Some (e_key (back_entries two_entries ! expired_run (back_entries two_entries) (\<lambda>n. 6))),
            Some (e_value (back_entries two_entries ! expired_run (back_entries two_entries) (\<lambda>n. 6))), True)"
    by blast
  then have "RemoveOldest two_entries (\<lambda>n. 6) = Inr ((Some 2, Some 20, True), c') \<and>
         evictList c' = [] \<and> calls c' = [(1, 10), (2, 20)]"
    unfolding m unfolding es by (simp add: two_entries_def call_of_def)
  with h show ?thesis by blast
qed

text \<open>
  C7. \<^verbatim>\<open>AddEx\<close> on a key that is in the map returns \<^verbatim>\<open>false\<close>. The element of the key
  moves to the front of the list and the other elements keep their order; its entry keeps
  the key and gets the new value and the new expiration, which is \<open>now + ttl\<close> if
  \<open>ttl > 0\<close>, else \<open>now + c_expire\<close> if the default is positive, else none. The map and the
  log of callback calls are as before, no element leaves the list, and \<^verbatim>\<open>Len\<close> is
  unchanged.
\<close>

theorem AddEx_existing_key:
  fixes c :: "('k, 'v) LRU"
  assumes "lru_inv c" and "items c k = Some a"
  shows "\<exists>c'. AddEx c k v ttl now = Inr (False, c') \<and> lru_inv c' \<and>
           evictList c' = a # remove1 a (evictList c) \<and>
           set (evictList c') = set (evictList c) \<and>
           heap c' = (heap c)[a := \<lparr>e_key = k, e_value = v,
                                    e_expire = (if ttl > 0 then Some (now + ttl)
                                                else if c_expire c > 0 then Some (now + c_expire c)
                                                else None)\<rparr>] \<and>
           items c' = items c \<and> calls c' = calls c \<and> Len c' = Len c \<and>
           c_size c' = c_size c"
proof -
  let ?ex = "expiration c ttl now"
  let ?c' = "c\<lparr>evictList := list_MoveToFront (evictList c) a,
               heap := (heap c)[a := (heap c ! a)\<lparr>e_value := v, e_expire := ?ex\<rparr>]\<rparr>"
  from assms have mem: "a \<in> set (evictList c)" by (rule lru_inv_items)
  have A: "AddEx c k v ttl now = Inr (False, ?c')" using assms by (rule AddEx_hit)
  have B: "lru_inv ?c'" using assms(1) by (rule lru_inv_update)
  have C: "evictList ?c' = a # remove1 a (evictList c)"
    using mem by (simp add: list_MoveToFront_def)
  have D: "set (evictList ?c') = set (evictList c)" by (simp add: set_MoveToFront)
  have "e_key (heap c ! a) = k" using assms by (rule lru_inv_key)
  then have "(heap c ! a)\<lparr>e_value := v, e_expire := ?ex\<rparr> = \<lparr>e_key = k, e_value = v, e_expire = ?ex\<rparr>"
    by (cases "heap c ! a") simp
  then have E: "heap ?c' = (heap c)[a := \<lparr>e_key = k, e_value = v,
                                    e_expire = (if ttl > 0 then Some (now + ttl)
                                                else if c_expire c > 0 then Some (now + c_expire c)
                                                else None)\<rparr>]"
    by (simp add: expiration_def)
  have F: "items ?c' = items c" "calls ?c' = calls c" "c_size ?c' = c_size c" by simp_all
  have G: "Len ?c' = Len c" by (simp add: Len_def length_MoveToFront)
  show ?thesis
    by (rule exI[of _ ?c']) (intro conjI A B C D E F G)
qed

theorem AddEx_existing_key_witness:
  "lru_inv two_entries \<and> items two_entries 1 = Some 0 \<and>
   (\<exists>c'. AddEx two_entries 1 11 3 7 = Inr (False, c') \<and>
         evictList c' = [0, 1] \<and>
         heap c' = [\<lparr>e_key = 1, e_value = 11, e_expire = Some 10\<rparr>,
                    \<lparr>e_key = 2, e_value = 20, e_expire = None\<rparr>] \<and>
         items c' = items two_entries \<and> calls c' = [] \<and> Len c' = 2)"
proof -
  have h: "lru_inv two_entries" by (rule two_entries_inv)
  have i: "items two_entries 1 = Some 0" by (simp add: two_entries_def)
  from AddEx_existing_key[OF h i, of 11 3 7] obtain c' where
    "AddEx two_entries 1 11 3 7 = Inr (False, c')"
    "evictList c' = 0 # remove1 0 (evictList two_entries)"
    "heap c' = (heap two_entries)[0 := \<lparr>e_key = 1, e_value = 11,
                 e_expire = (if (3::int) > 0 then Some (7 + 3)
                             else if c_expire two_entries > 0 then Some (7 + c_expire two_entries)
                             else None)\<rparr>]"
    "items c' = items two_entries" "calls c' = calls two_entries" "Len c' = Len two_entries"
    by blast
  then have "AddEx two_entries 1 11 3 7 = Inr (False, c') \<and>
         evictList c' = [0, 1] \<and>
         heap c' = [\<lparr>e_key = 1, e_value = 11, e_expire = Some 10\<rparr>,
                    \<lparr>e_key = 2, e_value = 20, e_expire = None\<rparr>] \<and>
         items c' = items two_entries \<and> calls c' = [] \<and> Len c' = 2"
    by (simp add: two_entries_def Len_def)
  with h i show ?thesis by blast
qed

text \<open>
  C6. \<^verbatim>\<open>AddEx\<close> on a key that is not in the map allocates an entry with the key, the
  value and the expiration, puts its element at the front of the list and binds the key
  to it. It returns \<^verbatim>\<open>true\<close> exactly when the list is then longer than \<^verbatim>\<open>c.size\<close>;
  in that case the element at the back and no other leaves the list, whatever its
  expiration, its key leaves the map and the callback, when there is one, is called once,
  on its key and value. Otherwise nothing is removed and the callback is not called.
\<close>

theorem AddEx_new_key:
  fixes c :: "('k, 'v) LRU" and k :: 'k and v :: 'v and ttl :: duration and now :: instant
  assumes "lru_inv c" and "items c k = None"
  defines "a \<equiv> length (heap c)"
  defines "new \<equiv> \<lparr>e_key = k, e_value = v, e_expire = expiration c ttl now\<rparr>"
  defines "l1 \<equiv> a # evictList c"
  defines "old \<equiv> (heap c @ [new]) ! last l1"
  defines "evict \<equiv> int (length l1) > c_size c"
  shows "\<exists>c'. AddEx c k v ttl now = Inr (evict, c') \<and> lru_inv c' \<and>
           heap c' = heap c @ [new] \<and>
           evictList c' = (if evict then butlast l1 else l1) \<and>
           items c' = (if evict then ((items c)(k \<mapsto> a))(e_key old := None)
                       else (items c)(k \<mapsto> a)) \<and>
           calls c' = calls c @ (if evict \<and> onEvict c then [call_of old] else []) \<and>
           c_size c' = c_size c \<and>
           length (evictList c') = (if evict then length (evictList c) else length (evictList c) + 1)"
proof -
  let ?c1 = "c\<lparr>heap := heap c @ [new],
               evictList := list_PushFront (evictList c) (length (heap c)),
               items := (items c)(k \<mapsto> length (heap c))\<rparr>"
  have inv1: "lru_inv ?c1" unfolding new_def using assms(1,2) by (rule lru_inv_push)
  have l1: "evictList ?c1 = l1" by (simp add: l1_def a_def list_PushFront_def)
  have ne: "evictList ?c1 \<noteq> []" by (simp add: list_PushFront_def)
  have ev: "(Len c + 1 > c_size c) = evict"
    unfolding evict_def l1_def Len_def by auto
  note miss = AddEx_miss[OF assms(2), of v ttl now, folded new_def, unfolded ev]
  show ?thesis
  proof (cases evict)
    case True
    from removeOldest_fields[OF inv1 ne] obtain c2 where
      r: "removeOldest ?c1 = Inr c2" and inv2: "lru_inv c2" and
      e2: "evictList c2 = butlast (evictList ?c1)" and
      i2: "items c2 = (items ?c1)(e_key (heap ?c1 ! last (evictList ?c1)) := None)" and
      k2: "calls c2 = calls ?c1 @ (if onEvict ?c1 then [call_of (heap ?c1 ! last (evictList ?c1))] else [])" and
      h2: "heap c2 = heap ?c1" and s2: "c_size c2 = c_size ?c1"
      by blast
    have A: "AddEx c k v ttl now = Inr (evict, c2)" using miss True r by simp
    have B: "heap c2 = heap c @ [new]" using h2 by simp
    have C: "evictList c2 = (if evict then butlast l1 else l1)"
      using e2 True unfolding l1 by simp
    have D: "items c2 = (if evict then ((items c)(k \<mapsto> a))(e_key old := None)
                       else (items c)(k \<mapsto> a))"
      using i2 True unfolding l1 old_def a_def by simp
    have E: "calls c2 = calls c @ (if evict \<and> onEvict c then [call_of old] else [])"
      using k2 True unfolding l1 old_def by simp
    have F: "c_size c2 = c_size c" using s2 by simp
    have G: "length (evictList c2) = (if evict then length (evictList c) else length (evictList c) + 1)"
      using C True by (simp add: l1_def)
    show ?thesis
      by (rule exI[of _ c2]) (intro conjI A inv2 B C D E F G)
  next
    case False
    have A: "AddEx c k v ttl now = Inr (evict, ?c1)" using miss False by simp
    have B: "heap ?c1 = heap c @ [new]" by simp
    have C: "evictList ?c1 = (if evict then butlast l1 else l1)"
      using False unfolding l1 by simp
    have D: "items ?c1 = (if evict then ((items c)(k \<mapsto> a))(e_key old := None)
                       else (items c)(k \<mapsto> a))"
      using False unfolding a_def by simp
    have E: "calls ?c1 = calls c @ (if evict \<and> onEvict c then [call_of old] else [])"
      using False by simp
    have F: "c_size ?c1 = c_size c" by simp
    have G: "length (evictList ?c1) = (if evict then length (evictList c) else length (evictList c) + 1)"
      using False unfolding l1 by (simp add: l1_def)
    show ?thesis
      by (rule exI[of _ ?c1]) (intro conjI A inv1 B C D E F G)
  qed
qed

theorem AddEx_new_key_witness:
  "lru_inv two_entries \<and> items two_entries 3 = None \<and>
   (\<exists>c'. AddEx two_entries 3 30 0 7 = Inr (True, c') \<and>
         evictList c' = [2, 1] \<and> calls c' = [(1, 10)] \<and>
         items c' 1 = None \<and> items c' 3 = Some 2 \<and> Len c' = 2)"
proof -
  have h: "lru_inv two_entries" by (rule two_entries_inv)
  have i: "items two_entries 3 = None" by (simp add: two_entries_def)
  from AddEx_new_key[OF h i, of 30 0 7] obtain c' where
    "AddEx two_entries 3 30 0 7 =
       Inr (int (length (length (heap two_entries) # evictList two_entries)) > c_size two_entries, c')"
    "evictList c' =
       (if int (length (length (heap two_entries) # evictList two_entries)) > c_size two_entries
        then butlast (length (heap two_entries) # evictList two_entries)
        else length (heap two_entries) # evictList two_entries)"
    "items c' =
       (if int (length (length (heap two_entries) # evictList two_entries)) > c_size two_entries
        then ((items two_entries)(3 \<mapsto> length (heap two_entries)))
               (e_key ((heap two_entries @ [\<lparr>e_key = 3, e_value = 30, e_expire = expiration two_entries 0 7\<rparr>]) !
                       last (length (heap two_entries) # evictList two_entries)) := None)
        else (items two_entries)(3 \<mapsto> length (heap two_entries)))"
    "calls c' = calls two_entries @
       (if int (length (length (heap two_entries) # evictList two_entries)) > c_size two_entries \<and>
           onEvict two_entries
        then [call_of ((heap two_entries @ [\<lparr>e_key = 3, e_value = 30, e_expire = expiration two_entries 0 7\<rparr>]) !
                       last (length (heap two_entries) # evictList two_entries))]
        else [])"
    by blast
  then have "AddEx two_entries 3 30 0 7 = Inr (True, c') \<and>
         evictList c' = [2, 1] \<and> calls c' = [(1, 10)] \<and>
         items c' 1 = None \<and> items c' 3 = Some 2 \<and> Len c' = 2"
    by (simp add: two_entries_def call_of_def Len_def)
  with h i show ?thesis by blast
qed

text \<open>
  C9, as the code has it. For a new capacity \<open>sz \<ge> 0\<close> (and list length and \<open>sz\<close> within
  the range of Go's \<^verbatim>\<open>int\<close>), \<^verbatim>\<open>Resize\<close> returns \<open>d = Len - sz\<close> when the list is
  longer than \<open>sz\<close> and \<open>0\<close> otherwise, unlinks exactly the \<open>d\<close> elements at the back,
  oldest first, calling the callback, when there is one, on each, and sets \<^verbatim>\<open>c.size\<close>
  to \<open>sz\<close>. When the list was longer than \<open>sz\<close> its length is \<open>sz\<close> afterwards; when it
  was not, list, map and callback log are unchanged. The number returned is the number
  of elements removed.
\<close>

theorem Resize_nonnegative:
  fixes c :: "('k, 'v) LRU" and sz :: int
  assumes "lru_inv c" and "0 \<le> sz" and "sz < 2 ^ 63" and "Len c < 2 ^ 63"
  defines "d \<equiv> (if Len c > sz then Len c - sz else 0)"
  shows "\<exists>c'. Resize c sz = Inr (d, c') \<and> lru_inv c' \<and> c_size c' = sz \<and>
           evictList c' = take (length (evictList c) - nat d) (evictList c) \<and>
           calls c' = calls c @ (if onEvict c then map call_of (take (nat d) (back_entries c)) else []) \<and>
           items c' = (\<lambda>k. if k \<in> e_key ` set (take (nat d) (back_entries c)) then None
                            else items c k) \<and>
           heap c' = heap c \<and>
           Len c - Len c' = d \<and>
           (Len c > sz \<longrightarrow> Len c' = sz) \<and>
           (Len c \<le> sz \<longrightarrow> d = 0 \<and> evictList c' = evictList c \<and> calls c' = calls c \<and>
                                items c' = items c)"
proof -
  have L: "0 \<le> Len c" by (simp add: Len_def)
  have w: "wrap64 (Len c - sz) = Len c - sz"
    using assms(2,3,4) L by (intro wrap64_id) simp_all
  have diff: "(if Len c - sz < 0 then 0 else Len c - sz) = d"
    unfolding d_def by simp
  have dn: "0 \<le> d" "nat d \<le> length (evictList c)"
    using L assms(2) unfolding d_def Len_def by auto
  from Resize_loop_fields[OF assms(1), of "nat d"] obtain c1 where
    run: "Resize_loop (nat d) c = Inr c1" and inv1: "lru_inv c1" and
    l1: "evictList c1 = take (length (evictList c) - nat d) (evictList c)" and
    k1: "calls c1 = calls c @ (if onEvict c then map call_of (take (nat d) (back_entries c)) else [])" and
    i1: "items c1 = (\<lambda>k. if k \<in> e_key ` set (take (nat d) (back_entries c)) then None else items c k)" and
    h1: "heap c1 = heap c"
    by blast
  let ?c' = "c1\<lparr>c_size := sz\<rparr>"
  have A: "Resize c sz = Inr (d, ?c')"
    unfolding Resize_def Let_def w diff using run by simp
  have B: "lru_inv ?c'" using inv1 by (simp add: lru_inv_c_size)
  have C: "c_size ?c' = sz" by simp
  have D: "evictList ?c' = take (length (evictList c) - nat d) (evictList c)" using l1 by simp
  have E: "calls ?c' = calls c @ (if onEvict c then map call_of (take (nat d) (back_entries c)) else [])"
    using k1 by simp
  have F: "items ?c' = (\<lambda>k. if k \<in> e_key ` set (take (nat d) (back_entries c)) then None
                            else items c k)"
    using i1 by simp
  have G: "heap ?c' = heap c" using h1 by simp
  have len: "Len ?c' = Len c - d"
    using dn l1 by (simp add: Len_def)
  have H: "Len c - Len ?c' = d" using len by simp
  have I: "Len c > sz \<longrightarrow> Len ?c' = sz" using len unfolding d_def by simp
  have J: "Len c \<le> sz \<longrightarrow> d = 0 \<and> evictList ?c' = evictList c \<and> calls ?c' = calls c \<and>
                                items ?c' = items c"
  proof
    assume "Len c \<le> sz"
    then have z: "d = 0" unfolding d_def by simp
    have "(\<lambda>k. items c k) = items c" by simp
    with z l1 k1 i1 show "d = 0 \<and> evictList ?c' = evictList c \<and> calls ?c' = calls c \<and>
                                items ?c' = items c"
      by simp
  qed
  show ?thesis
    by (rule exI[of _ ?c']) (intro conjI A B C D E F G H I J)
qed

theorem Resize_nonnegative_witness:
  "lru_inv two_entries \<and> (0::int) \<le> 1 \<and> (1::int) < 2 ^ 63 \<and> Len two_entries < 2 ^ 63 \<and>
   (\<exists>c'. Resize two_entries 1 = Inr (1, c') \<and> c_size c' = 1 \<and> evictList c' = [1] \<and>
         calls c' = [(1, 10)] \<and> Len c' = 1)"
proof -
  have h: "lru_inv two_entries" by (rule two_entries_inv)
  have l: "Len two_entries < 2 ^ 63" by (simp add: Len_def two_entries_def)
  have es: "back_entries two_entries =
      [\<lparr>e_key = 1, e_value = 10, e_expire = Some 5\<rparr>, \<lparr>e_key = 2, e_value = 20, e_expire = None\<rparr>]"
    by (simp add: back_entries_def two_entries_def)
  have d: "(if Len two_entries > 1 then Len two_entries - 1 else 0) = 1"
    by (simp add: Len_def two_entries_def)
  from Resize_nonnegative[OF h _ _ l, of 1] obtain c' where
    "Resize two_entries 1 = Inr (if Len two_entries > 1 then Len two_entries - 1 else 0, c')"
    "c_size c' = 1"
    "evictList c' = take (length (evictList two_entries) -
                          nat (if Len two_entries > 1 then Len two_entries - 1 else 0))
                      (evictList two_entries)"
    "calls c' = calls two_entries @
       (if onEvict two_entries
        then map call_of (take (nat (if Len two_entries > 1 then Len two_entries - 1 else 0))
                            (back_entries two_entries))
        else [])"
    "Len two_entries > 1 \<longrightarrow> Len c' = 1"
    by auto
  then have "Resize two_entries 1 = Inr (1, c') \<and> c_size c' = 1 \<and> evictList c' = [1] \<and>
         calls c' = [(1, 10)] \<and> Len c' = 1"
    unfolding d es by (simp add: two_entries_def call_of_def Len_def)
  with h l show ?thesis by auto
qed

text \<open>
  The claim as stated, for every integer: on a negative capacity \<^verbatim>\<open>Resize\<close> returns
  \<open>Len - sz\<close>, more than the number of elements there were to remove, and the length
  of the list ends at \<open>0\<close>, not at the capacity. With two elements and \<open>sz = -1\<close> it
  returns \<open>3\<close> and the callback is called twice.
\<close>

theorem Resize_negative_counterexample:
  "Resize two_entries (- 1) =
     Inr (3, \<lparr>c_size = - 1, evictList = [], items = Map.empty, c_expire = 0, onEvict = True,
              heap = [\<lparr>e_key = 1, e_value = 10, e_expire = Some 5\<rparr>,
                      \<lparr>e_key = 2, e_value = 20, e_expire = None\<rparr>],
              calls = [(1, 10), (2, 20)]\<rparr>)"
  by (simp add: Resize_def wrap64_def Len_def two_entries_def numeral_3_eq_3 removeOldest_def
      list_Back_def removeElement_def deref_def list_Remove_def)



text \<open>
  C2. A cache constructed with a positive size, after any sequence of \<^verbatim>\<open>Add\<close> and
  \<^verbatim>\<open>AddEx\<close> calls (of any keys, distinct or not): every prefix of the sequence runs to
  its end, and after it \<^verbatim>\<open>Len\<close> is at most the size the cache was constructed with.
  In the state reached, \<^verbatim>\<open>AddEx\<close> of a key that is not in the map returns
  \<^verbatim>\<open>true\<close> exactly when the list with the new element is longer than the size, and
  leaves \<^verbatim>\<open>Len\<close> within the size.
\<close>

theorem puts_keep_capacity:
  fixes xs :: "('k, 'v) op list"
  assumes "0 < sz" and "\<forall>x\<in>set xs. is_put x" and "n \<le> length xs"
  shows "\<exists>c. session sz expire cb (take n xs) = Inr c \<and> c_size c = sz \<and> Len c \<le> c_size c \<and>
           (\<forall>k v ttl now. items c k = None \<longrightarrow>
              (\<exists>c'. AddEx c k v ttl now = Inr (c_size c < Len c + 1, c') \<and> Len c' \<le> c_size c'))"
proof -
  let ?c0 = "\<lparr>c_size = sz, evictList = [], items = Map.empty, c_expire = expire,
              onEvict = cb, heap = [], calls = []\<rparr> :: ('k, 'v) LRU"
  have new: "NewLRUWithExpire sz expire cb = Inr ?c0"
    using assms(1) by (simp add: NewLRUWithExpire_def)
  then have i0: "lru_inv ?c0" by (rule NewLRUWithExpire_inv)
  have l0: "Len ?c0 \<le> c_size ?c0" using assms(1) by (simp add: Len_def)
  have p: "\<forall>x\<in>set (take n xs). is_put x"
    using assms(2) by (auto dest: in_set_takeD)
  from run_puts[OF i0 l0 p] obtain c where
    r: "run ?c0 (take n xs) = Inr c" and i: "lru_inv c" and l: "Len c \<le> c_size c" and
    s: "c_size c = sz" by auto
  have A: "session sz expire cb (take n xs) = Inr c"
    using new r by (simp add: session_def)
  have B: "\<forall>k v ttl now. items c k = None \<longrightarrow>
              (\<exists>c'. AddEx c k v ttl now = Inr (c_size c < Len c + 1, c') \<and> Len c' \<le> c_size c')"
    using AddEx_miss_evicts[OF i l] by blast
  from A s l B show ?thesis by blast
qed

theorem puts_keep_capacity_witness:
  "(0::int) < 1 \<and> is_put (OpAdd (1::nat) (10::nat) 0) \<and> is_put (OpAddEx (2::nat) (20::nat) 5 1) \<and>
   (2::nat) \<le> length [OpAdd (1::nat) (10::nat) 0, OpAddEx 2 20 5 1] \<and>
   session 1 0 True [OpAdd (1::nat) (10::nat) 0, OpAddEx 2 20 5 1] =
     Inr \<lparr>c_size = 1, evictList = [1], items = [2 \<mapsto> 1], c_expire = 0, onEvict = True,
          heap = [\<lparr>e_key = 1, e_value = 10, e_expire = None\<rparr>,
                  \<lparr>e_key = 2, e_value = 20, e_expire = Some 6\<rparr>],
          calls = [(1, 10)]\<rparr> \<and>
   (\<exists>c. session 1 0 True [OpAdd (1::nat) (10::nat) 0, OpAddEx 2 20 5 1] = Inr c \<and>
        c_size c = 1 \<and> Len c \<le> c_size c)"
proof -
  have p: "\<forall>x\<in>set [OpAdd (1::nat) (10::nat) 0, OpAddEx 2 20 5 1]. is_put x" by simp
  have n: "(2::nat) \<le> length [OpAdd (1::nat) (10::nat) 0, OpAddEx 2 20 5 1]" by simp
  have z: "(0::int) < 1" by simp
  from puts_keep_capacity[OF z p n, of 0 True] have
    e: "\<exists>c. session 1 0 True [OpAdd (1::nat) (10::nat) 0, OpAddEx 2 20 5 1] = Inr c \<and>
        c_size c = 1 \<and> Len c \<le> c_size c"
    by auto
  have v: "session 1 0 True [OpAdd (1::nat) (10::nat) 0, OpAddEx 2 20 5 1] =
     Inr \<lparr>c_size = 1, evictList = [1], items = [2 \<mapsto> 1], c_expire = 0, onEvict = True,
          heap = [\<lparr>e_key = 1, e_value = 10, e_expire = None\<rparr>,
                  \<lparr>e_key = 2, e_value = 20, e_expire = Some 6\<rparr>],
          calls = [(1, 10)]\<rparr>"
    by (simp add: session_def NewLRUWithExpire_def state_of_def Add_def AddEx_def expiration_def
        list_PushFront_def Len_def removeOldest_def list_Back_def removeElement_def deref_def
        list_Remove_def)
  have q: "is_put (OpAdd (1::nat) (10::nat) 0)" "is_put (OpAddEx (2::nat) (20::nat) 5 1)"
    by simp_all
  from z q n v e show ?thesis by blast
qed

text \<open>
  C1. The cache \<open>two_entries\<close> holds key \<open>1\<close>, which expired at instant \<open>5\<close>, at the back
  and key \<open>2\<close>, which never expires, at the front. \<^verbatim>\<open>GetOldest\<close> at instant \<open>6\<close>
  finds the back entry expired and passes \<^verbatim>\<open>ent.Next()\<close>, which is nil for the back
  element, to \<^verbatim>\<open>removeElement\<close>: the call ends in a nil pointer dereference. It
  neither removes the expired entry nor returns key \<open>2\<close>.
\<close>

theorem GetOldest_expired_back_panics:
  "GetOldest two_entries (\<lambda>n. 6) = Inl NilPointerDereference"
  by (subst GetOldest.simps)
     (simp add: two_entries_def list_Back_def deref_def IsExpired_def list_Next_def
        removeElement_def)

text \<open>
  C4. A cache constructed with size \<open>2\<close>, one \<^verbatim>\<open>AddEx\<close> with a time to live of \<open>5\<close> at
  instant \<open>0\<close>, then \<^verbatim>\<open>GetOldest\<close> at instant \<open>6\<close>: the sequence of public operations
  ends in a nil pointer dereference.
\<close>

theorem session_GetOldest_panics:
  "session 2 0 True [OpAddEx (1::nat) (10::nat) 5 0, OpGetOldest (\<lambda>n. 6)] =
     Inl NilPointerDereference"
  by (simp add: session_def NewLRUWithExpire_def state_of_def AddEx_def expiration_def
        list_PushFront_def Len_def GetOldest.simps list_Back_def deref_def IsExpired_def
        list_Next_def removeElement_def)

end
